theory Spec2Isabelle
  imports Complex_Main "HOL-Library.AList"
begin

section \<open>Data model of the utility server (index-v2)\<close>

text \<open>
  The server keeps three process-wide \<^verbatim>\<open>Map\<close> objects: \<^verbatim>\<open>cache\<close>, \<^verbatim>\<open>retryMetadata\<close> and
  \<^verbatim>\<open>rateLimits\<close>. A JavaScript \<^verbatim>\<open>Map\<close> with string keys is an insertion-ordered table with
  one entry per key; it is modelled as an association list: \<^verbatim>\<open>get\<close> is \<open>map_of\<close>,
  \<^verbatim>\<open>set\<close> is \<open>AList.update\<close> (replace in place, or append a new key at the end),
  \<^verbatim>\<open>delete\<close> is \<open>AList.delete\<close> and \<^verbatim>\<open>size\<close> is \<open>length\<close>.

  Numbers are JavaScript numbers in the source. Counters, millisecond timestamps, second
  counts and limits are taken to be integers (\<open>int\<close>, \<open>nat\<close> for the attempt counter,
  which starts at 0 and is only ever incremented). \<^verbatim>\<open>max_retries\<close> is a rational: it only
  occurs in the test \<^verbatim>\<open>attempts >= max_retries\<close>, which a fractional value passes once more
  than the integer below it. \<^verbatim>\<open>Date.now()\<close> is an explicit argument \<open>now\<close>: every read of
  the clock inside one synchronous handler returns that value.
\<close>

datatype json =
    JNull
  | JBool bool
  | JNum int
  | JStr string
  | JArr "json list"
  | JObj "(string \<times> json) list"

record CacheEntry =
  entry_value :: json
  expiresAt :: int

record RetryMeta =
  attempts :: nat
  lastAttempt :: int
  success :: bool

record RateLimit =
  count :: int
  resetAt :: int

record server_state =
  cache :: "(string \<times> CacheEntry) list"
  retryMetadata :: "(string \<times> RetryMeta) list"
  rateLimits :: "(string \<times> RateLimit) list"

definition initial_state :: server_state where
  "initial_state = \<lparr>cache = [], retryMetadata = [], rateLimits = []\<rparr>"

text \<open>A destructuring default \<^verbatim>\<open>{ x = d } = args\<close>: the default applies when the argument is absent.\<close>

definition dflt :: "'a \<Rightarrow> 'a option \<Rightarrow> 'a" where
  "dflt d x = (case x of None \<Rightarrow> d | Some v \<Rightarrow> v)"

text \<open>The errors a handler can throw (\<^verbatim>\<open>McpError\<close> with its \<^verbatim>\<open>ErrorCode\<close>).\<close>

datatype mcp_error =
    InternalError string
  | InvalidParams string
  | MethodNotFound string

text \<open>
  \<^verbatim>\<open>new Date(t).toISOString()\<close> throws a \<^verbatim>\<open>RangeError\<close> ("Invalid time value") unless \<open>t\<close> is
  a time value, at most 8.64e15 ms from the epoch on either side. A handler that formats
  such a date has done all that comes before, and the \<^verbatim>\<open>catch\<close> of the request handler
  rethrows the error as an \<^verbatim>\<open>InternalError\<close>. Where a response holds an ISO string, the
  model keeps the millisecond timestamp.
\<close>

definition valid_date :: "int \<Rightarrow> bool" where
  "valid_date t = (\<bar>t\<bar> \<le> 8640000000000000)"

definition invalid_time :: mcp_error where
  "invalid_time = InternalError ''Tool execution failed: Invalid time value''"

subsection \<open>The periodic sweep\<close>

text \<open>
  The \<^verbatim>\<open>setInterval\<close> callback: drops cache entries with \<^verbatim>\<open>expiresAt <= now\<close> and retry
  metadata with \<^verbatim>\<open>lastAttempt < now - 3600000\<close>.
\<close>

definition sweep :: "int \<Rightarrow> server_state \<Rightarrow> server_state" where
  "sweep now st = st
     \<lparr>cache := filter (\<lambda>(k, e). \<not> expiresAt e \<le> now) (cache st),
      retryMetadata := filter (\<lambda>(k, m). \<not> lastAttempt m < now - 3600000) (retryMetadata st)\<rparr>"

section \<open>TTL cache\<close>

definition getCacheKey :: "string \<Rightarrow> string option \<Rightarrow> string" where
  "getCacheKey key namespace = dflt ''default'' namespace @ '':'' @ key"

record cache_get_response =
  found :: bool
  got_value :: "json option"
  reason :: "string option"
  expires_in_seconds :: "int option"

definition cache_get ::
  "string \<Rightarrow> string option \<Rightarrow> int \<Rightarrow> server_state \<Rightarrow> cache_get_response \<times> server_state" where
  "cache_get key namespace now st =
     (let cacheKey = getCacheKey key (Some (dflt ''default'' namespace)) in
      case map_of (cache st) cacheKey of
        None \<Rightarrow>
          (\<lparr>found = False, got_value = None, reason = None, expires_in_seconds = None\<rparr>, st)
      | Some entry \<Rightarrow>
          if expiresAt entry \<le> now
          then (\<lparr>found = False, got_value = None, reason = Some ''expired'',
                 expires_in_seconds = None\<rparr>,
                st\<lparr>cache := AList.delete cacheKey (cache st)\<rparr>)
          else (\<lparr>found = True, got_value = Some (entry_value entry), reason = None,
                 expires_in_seconds = Some ((expiresAt entry - now) div 1000)\<rparr>, st))"

record cache_put_response =
  put_success :: bool
  put_ttl_seconds :: int
  expires_at :: int
  cache_size :: nat

text \<open>
  \<^verbatim>\<open>cache_put\<close> writes the entry first and builds its response afterwards; the response
  holds \<^verbatim>\<open>new Date(expiresAt).toISOString()\<close>, so for an expiry that is no time value the
  call throws after the entry has been stored.
\<close>

definition cache_put ::
  "string \<Rightarrow> json \<Rightarrow> int option \<Rightarrow> string option \<Rightarrow> int \<Rightarrow> server_state
     \<Rightarrow> (mcp_error + cache_put_response) \<times> server_state" where
  "cache_put key v ttl_seconds namespace now st =
     (let ttl = dflt 300 ttl_seconds;
          cacheKey = getCacheKey key (Some (dflt ''default'' namespace));
          expiry = now + ttl * 1000;
          st' = st\<lparr>cache := AList.update cacheKey \<lparr>entry_value = v, expiresAt = expiry\<rparr> (cache st)\<rparr>
      in (if valid_date expiry
          then Inr \<lparr>put_success = True, put_ttl_seconds = ttl, expires_at = expiry,
                    cache_size = length (cache st')\<rparr>
          else Inl invalid_time, st'))"



section \<open>Retry tracker\<close>

record retry_args =
  operation_id :: string
  operation_type :: string
  operation_data :: json
  max_retries :: "rat option"
  initial_delay_ms :: "int option"
  should_execute :: "bool option"

text \<open>
  The response of \<^verbatim>\<open>retry_operation\<close>, one constructor per \<^verbatim>\<open>status\<close>, with the numeric
  fields of the JSON text: \<^verbatim>\<open>attempts\<close>; \<^verbatim>\<open>attempts\<close> and \<^verbatim>\<open>wait_ms\<close>; \<^verbatim>\<open>attempts\<close> and
  \<^verbatim>\<open>next_delay_ms\<close>; \<^verbatim>\<open>attempt_number\<close>.
\<close>

datatype retry_response =
    already_succeeded nat
  | max_retries_exceeded nat
  | retry_delayed nat int
  | ready_to_execute nat int
  | execute_attempt nat

definition get_metadata :: "server_state \<Rightarrow> string \<Rightarrow> RetryMeta" where
  "get_metadata st oid =
     (case map_of (retryMetadata st) oid of
        Some m \<Rightarrow> m
      | None \<Rightarrow> \<lparr>attempts = 0, lastAttempt = 0, success = False\<rparr>)"

definition retry_operation ::
  "retry_args \<Rightarrow> int \<Rightarrow> server_state \<Rightarrow> retry_response \<times> server_state" where
  "retry_operation a now st =
     (let maxr = dflt 3 (max_retries a);
          delay0 = dflt 1000 (initial_delay_ms a);
          metadata = get_metadata st (operation_id a)
      in if success metadata then (already_succeeded (attempts metadata), st)
         else if of_nat (attempts metadata) \<ge> maxr
         then (max_retries_exceeded (attempts metadata), st)
         else
           let timeSinceLastAttempt = now - lastAttempt metadata;
               requiredDelay = delay0 * 2 ^ attempts metadata
           in if attempts metadata > 0 \<and> timeSinceLastAttempt < requiredDelay
              then (retry_delayed (attempts metadata) (requiredDelay - timeSinceLastAttempt), st)
              else if \<not> dflt True (should_execute a)
              then (ready_to_execute (attempts metadata) requiredDelay, st)
              else
                let metadata' = metadata\<lparr>attempts := attempts metadata + 1, lastAttempt := now\<rparr>
                in (execute_attempt (attempts metadata'),
                    st\<lparr>retryMetadata :=
                         AList.update (operation_id a) metadata' (retryMetadata st)\<rparr>))"

text \<open>
  What can happen to the retry store over the life of the process: a \<^verbatim>\<open>retry_operation\<close>
  call at some time, or a tick of the sweep.
\<close>

datatype retry_step = Call retry_args int | Sweep int

fun retry_apply :: "retry_step \<Rightarrow> server_state \<Rightarrow> server_state" where
  "retry_apply (Call a now) st = snd (retry_operation a now st)"
| "retry_apply (Sweep now) st = sweep now st"

definition retry_run :: "retry_step list \<Rightarrow> server_state \<Rightarrow> server_state" where
  "retry_run steps st = fold retry_apply steps st"

section \<open>Rate limiter\<close>

record rate_limit_response =
  allowed :: bool
  current_count :: int
  remaining :: int
  reset_in_seconds :: int
  reset_at :: int

text \<open>\<^verbatim>\<open>Math.ceil(x / 1000)\<close> on an integer \<open>x\<close>.\<close>

definition ceil_div_1000 :: "int \<Rightarrow> int" where
  "ceil_div_1000 x = - ((- x) div 1000)"

text \<open>
  The window is stored and the counter incremented before the response is built; the
  response holds \<^verbatim>\<open>new Date(limit.resetAt).toISOString()\<close>, so for a \<^verbatim>\<open>resetAt\<close> that is no
  time value the call throws after the store has been changed.
\<close>

definition rate_limit_check ::
  "string \<Rightarrow> int option \<Rightarrow> int option \<Rightarrow> bool option \<Rightarrow> int \<Rightarrow> server_state
     \<Rightarrow> (mcp_error + rate_limit_response) \<times> server_state" where
  "rate_limit_check resource max_requests window_seconds increment now st =
     (let maxq = dflt 60 max_requests;
          windowMs = dflt 60 window_seconds * 1000;
          fresh = \<lparr>count = 0, resetAt = now + windowMs\<rparr>;
          (limit, limits1) =
            (case map_of (rateLimits st) resource of
               None \<Rightarrow> (fresh, AList.update resource fresh (rateLimits st))
             | Some l \<Rightarrow>
                 if resetAt l \<le> now then (fresh, AList.update resource fresh (rateLimits st))
                 else (l, rateLimits st));
          ok = count limit < maxq;
          remain = max 0 (maxq - count limit);
          resetIn = ceil_div_1000 (resetAt limit - now);
          limit' = (if ok \<and> dflt True increment then limit\<lparr>count := count limit + 1\<rparr> else limit);
          limits2 = (if ok \<and> dflt True increment then AList.update resource limit' limits1
                     else limits1)
      in (if valid_date (resetAt limit')
          then Inr \<lparr>allowed = ok, current_count = count limit', remaining = remain,
                    reset_in_seconds = resetIn, reset_at = resetAt limit'\<rparr>
          else Inl invalid_time,
          st\<lparr>rateLimits := limits2\<rparr>))"

text \<open>
  Consecutive checks of one resource at the given times, threading the store; of each
  response the fields \<^verbatim>\<open>allowed\<close> and \<^verbatim>\<open>remaining\<close>, or the error thrown.
\<close>

fun rate_limit_calls ::
  "string \<Rightarrow> int option \<Rightarrow> int option \<Rightarrow> bool option \<Rightarrow> int list \<Rightarrow> server_state
     \<Rightarrow> (mcp_error + rate_limit_response) list" where
  "rate_limit_calls resource m w i [] st = []"
| "rate_limit_calls resource m w i (now # ts) st =
     (let (r, st') = rate_limit_check resource m w i now st
      in r # rate_limit_calls resource m w i ts st')"

definition allowed_remaining :: "mcp_error + rate_limit_response \<Rightarrow> (bool \<times> int) option" where
  "allowed_remaining r = (case r of Inl e \<Rightarrow> None | Inr resp \<Rightarrow> Some (allowed resp, remaining resp))"

section \<open>Batch runner\<close>

record operation =
  op_id :: string
  op_type :: string
  op_data :: json

record batch_args =
  operations :: "operation list"
  concurrency :: "int option"
  timeout_ms :: "int option"
  continue_on_error :: "bool option"
  use_cache :: "bool option"
  cache_ttl_seconds :: "int option"

record batch_result =
  r_id :: string
  r_success :: bool
  r_cached :: bool
  r_result :: "json option"
  r_error :: "string option"

text \<open>
  The JSON text returned on success. \<^verbatim>\<open>results.find(...)\<close> yields \<^verbatim>\<open>undefined\<close> when no result
  has the id; that is \<open>None\<close> here.
\<close>

record batch_response =
  b_success :: bool
  total_operations :: nat
  successful :: nat
  failed :: nat
  sorted_results :: "batch_result option list"

text \<open>
  The handler is asynchronous. Each operation that is started creates one promise,
  \<^verbatim>\<open>Promise.race([work, timeout])\<close>, numbered here in order of creation. Two timers belong to
  it: the one of the simulated work (\<^verbatim>\<open>Math.random() * 1000\<close> ms) and the one of the timeout
  (\<^verbatim>\<open>timeout_ms\<close>). Which timer fires when is decided outside the handler; the model takes
  the firings as a list of events, each with the value \<^verbatim>\<open>Date.now()\<close> has at that moment.
  When the work timer fires, the work function builds its result, writes the cache (if
  \<^verbatim>\<open>use_cache\<close>) and fulfils the race unless the timeout has already rejected it; when the
  timeout timer fires, it rejects the race unless the work has already fulfilled it.
  \<^verbatim>\<open>timeout_ms\<close> only sets the delay of the second timer, so it does not occur in the
  definitions below: a list of events stands for any choice of delays that produces it.
  What timers do after the handler has returned or thrown is not part of the call.
\<close>

datatype event = WorkDone nat int | TimeoutFired nat int

text \<open>
  The variables of the handler: \<^verbatim>\<open>results\<close>, \<^verbatim>\<open>queue\<close> and \<^verbatim>\<open>inProgress\<close> (a \<^verbatim>\<open>Map\<close> from
  operation id to promise), the shared \<^verbatim>\<open>cache\<close> and the clock. \<open>racing\<close> holds the promises
  that have not settled yet (the operations in flight), \<open>working\<close> those whose simulated work
  is still running, \<open>launched\<close> the number of promises created so far. \<open>peak\<close> is not a
  variable of the source: it is instrumentation, the largest number of unsettled promises
  there has been at any moment of the call.
\<close>

record batch_state =
  results :: "batch_result list"
  queue :: "operation list"
  inProgress :: "(string \<times> nat) list"
  racing :: "(nat \<times> operation) list"
  working :: "(nat \<times> operation) list"
  launched :: nat
  clock :: int
  srv_cache :: "(string \<times> CacheEntry) list"
  peak :: nat

text \<open>
  \<^verbatim>\<open>JSON.stringify\<close> belongs to the runtime, not to the repository: it is the parameter
  \<open>stringify\<close> of the definitions below.
\<close>

definition batchCacheKey :: "(json \<Rightarrow> string) \<Rightarrow> operation \<Rightarrow> string" where
  "batchCacheKey stringify op = ''batch:'' @ op_type op @ '':'' @ stringify (op_data op)"

text \<open>
  The object the simulated work returns. \<^verbatim>\<open>processed_at\<close> is an ISO string in the source;
  the model keeps the millisecond timestamp.
\<close>

definition work_result :: "operation \<Rightarrow> int \<Rightarrow> json" where
  "work_result op now =
     JObj [(''id'', JStr (op_id op)), (''type'', JStr (op_type op)), (''data'', op_data op),
           (''processed_at'', JNum now)]"

text \<open>
  The body of the inner \<^verbatim>\<open>while\<close> after \<^verbatim>\<open>queue.shift()\<close>: a live cache entry is pushed
  as a result at once (\<^verbatim>\<open>continue\<close>); otherwise the promise is created and stored in
  \<^verbatim>\<open>inProgress\<close> under the operation's id.
\<close>

definition start_one ::
  "(json \<Rightarrow> string) \<Rightarrow> batch_args \<Rightarrow> operation \<Rightarrow> batch_state \<Rightarrow> batch_state" where
  "start_one stringify a op s =
     (case (if dflt False (use_cache a) then map_of (srv_cache s) (batchCacheKey stringify op)
            else None) of
        Some cached \<Rightarrow>
          if expiresAt cached > clock s
          then s\<lparr>results := results s @
                    [\<lparr>r_id = op_id op, r_success = True, r_cached = True,
                      r_result = Some (entry_value cached), r_error = None\<rparr>]\<rparr>
          else s\<lparr>inProgress := AList.update (op_id op) (launched s) (inProgress s),
                 racing := racing s @ [(launched s, op)],
                 working := working s @ [(launched s, op)],
                 launched := Suc (launched s),
                 peak := max (peak s) (Suc (length (racing s)))\<rparr>
      | None \<Rightarrow>
          s\<lparr>inProgress := AList.update (op_id op) (launched s) (inProgress s),
            racing := racing s @ [(launched s, op)],
            working := working s @ [(launched s, op)],
            launched := Suc (launched s),
            peak := max (peak s) (Suc (length (racing s)))\<rparr>)"

text \<open>The inner loop: \<^verbatim>\<open>while (queue.length > 0 && inProgress.size < concurrency)\<close>.\<close>

function start_ops ::
  "(json \<Rightarrow> string) \<Rightarrow> batch_args \<Rightarrow> batch_state \<Rightarrow> batch_state" where
  "start_ops stringify a s =
     (case queue s of
        [] \<Rightarrow> s
      | op # rest \<Rightarrow>
          if int (length (inProgress s)) < dflt 5 (concurrency a)
          then start_ops stringify a (start_one stringify a op (s\<lparr>queue := rest\<rparr>))
          else s)"
  by pat_completeness auto
termination
  by (relation "measure (\<lambda>(f, a, s). length (queue s))")
     (auto simp: start_one_def split: option.splits if_splits)

declare start_ops.simps [simp del]

text \<open>
  The callbacks chained on each promise: \<^verbatim>\<open>.then\<close> pushes a success, \<^verbatim>\<open>.catch\<close> pushes the
  failure and, unless \<^verbatim>\<open>continue_on_error\<close>, empties the queue, \<^verbatim>\<open>.finally\<close> deletes the
  operation's id from \<^verbatim>\<open>inProgress\<close>. \<open>work_finished\<close> is the tail of the work function.
\<close>

definition work_finished ::
  "(json \<Rightarrow> string) \<Rightarrow> batch_args \<Rightarrow> operation \<Rightarrow> int \<Rightarrow> batch_state \<Rightarrow> batch_state" where
  "work_finished stringify a op now s =
     (if dflt False (use_cache a)
      then s\<lparr>srv_cache := AList.update (batchCacheKey stringify op)
                \<lparr>entry_value = work_result op now,
                 expiresAt = now + dflt 300 (cache_ttl_seconds a) * 1000\<rparr> (srv_cache s)\<rparr>
      else s)"

definition on_fulfilled :: "operation \<Rightarrow> int \<Rightarrow> batch_state \<Rightarrow> batch_state" where
  "on_fulfilled op now s =
     s\<lparr>results := results s @
          [\<lparr>r_id = op_id op, r_success = True, r_cached = False,
            r_result = Some (work_result op now), r_error = None\<rparr>]\<rparr>"

definition timeout_message :: "operation \<Rightarrow> string" where
  "timeout_message op = ''Operation '' @ op_id op @ '' timed out''"

definition on_rejected :: "batch_args \<Rightarrow> operation \<Rightarrow> batch_state \<Rightarrow> batch_state" where
  "on_rejected a op s =
     (let s1 = s\<lparr>results := results s @
                  [\<lparr>r_id = op_id op, r_success = False, r_cached = False,
                    r_result = None, r_error = Some (timeout_message op)\<rparr>]\<rparr>
      in if \<not> dflt True (continue_on_error a) then s1\<lparr>queue := []\<rparr> else s1)"

definition on_finally :: "operation \<Rightarrow> batch_state \<Rightarrow> batch_state" where
  "on_finally op s = s\<lparr>inProgress := AList.delete (op_id op) (inProgress s)\<rparr>"

text \<open>
  The handler suspended at \<^verbatim>\<open>await Promise.race(inProgress.values())\<close>, where \<open>awaited\<close> are
  the promises the \<^verbatim>\<open>Map\<close> held when the race was built. Events are taken until one settles
  an awaited promise. The reactions of a promise run in the order they were registered:
  the \<^verbatim>\<open>.then\<close>/\<^verbatim>\<open>.catch\<close> callback first, then the handler's continuation, and the
  \<^verbatim>\<open>.finally\<close> callback only after that; so on waking, the id of the settled operation is
  still in \<^verbatim>\<open>inProgress\<close>. A rejected race makes the \<^verbatim>\<open>await\<close> throw. A promise that is not
  awaited (its \<^verbatim>\<open>Map\<close> entry was overwritten by a later operation with the same id) runs all
  its callbacks and leaves the handler suspended.
\<close>

datatype wake =
    Stuck batch_state
  | Woken nat operation batch_state "event list"
  | Rejected string batch_state

fun wait_for ::
  "(json \<Rightarrow> string) \<Rightarrow> batch_args \<Rightarrow> nat list \<Rightarrow> batch_state \<Rightarrow> event list \<Rightarrow> wake" where
  "wait_for stringify a awaited s [] = Stuck s"
| "wait_for stringify a awaited s (WorkDone p now # evs) =
     (case map_of (working s) p of
        None \<Rightarrow> wait_for stringify a awaited s evs
      | Some op \<Rightarrow>
          let s1 = work_finished stringify a op now
                     (s\<lparr>working := AList.delete p (working s), clock := now\<rparr>)
          in (case map_of (racing s1) p of
                None \<Rightarrow> wait_for stringify a awaited s1 evs
              | Some rop \<Rightarrow>
                  let s2 = on_fulfilled rop now (s1\<lparr>racing := AList.delete p (racing s1)\<rparr>)
                  in if p \<in> set awaited then Woken p rop s2 evs
                     else wait_for stringify a awaited (on_finally rop s2) evs))"
| "wait_for stringify a awaited s (TimeoutFired p now # evs) =
     (case map_of (racing s) p of
        None \<Rightarrow> wait_for stringify a awaited s evs
      | Some op \<Rightarrow>
          let s1 = on_rejected a op (s\<lparr>racing := AList.delete p (racing s), clock := now\<rparr>)
          in if p \<in> set awaited then Rejected (timeout_message op) s1
             else wait_for stringify a awaited (on_finally op s1) evs)"

definition respond :: "batch_args \<Rightarrow> batch_state \<Rightarrow> batch_response" where
  "respond a s =
     \<lparr>b_success = True,
      total_operations = length (operations a),
      successful = length (filter r_success (results s)),
      failed = length (filter (\<lambda>r. \<not> r_success r) (results s)),
      sorted_results = map (\<lambda>op. find (\<lambda>r. r_id r = op_id op) (results s)) (operations a)\<rparr>"

text \<open>
  How a call stands after the events given: it has returned its response, it has thrown
  (the \<^verbatim>\<open>catch\<close> of the request handler wraps every error in an \<^verbatim>\<open>InternalError\<close>), or it is
  still suspended at its \<^verbatim>\<open>await\<close>.
\<close>

datatype batch_outcome =
    Returned batch_response
  | Threw mcp_error
  | Pending

text \<open>
  The outer loop \<^verbatim>\<open>while (queue.length > 0 || inProgress.size > 0)\<close>, from its test.
  \<open>fin\<close> is the operation whose promise has just woken the handler and whose \<^verbatim>\<open>.finally\<close>
  callback is still queued: it runs when the handler next suspends, before a race that
  already holds a settled promise resumes the handler. When nothing is in progress after
  the inner loop, the source goes round again without suspending; if the queue is not
  empty then, nothing changes any more and the loop never ends: the value is \<open>None\<close>.
\<close>

partial_function (option) main_loop ::
  "(json \<Rightarrow> string) \<Rightarrow> batch_args \<Rightarrow> (nat \<times> operation) option \<Rightarrow> batch_state \<Rightarrow> event list
     \<Rightarrow> (batch_outcome \<times> batch_state) option" where
  "main_loop stringify a fin s evs =
     (if queue s = [] \<and> inProgress s = [] then Some (Returned (respond a s), s)
      else
        let s1 = start_ops stringify a s in
        if inProgress s1 = [] then main_loop stringify a fin s1 evs
        else
          let awaited = map snd (inProgress s1);
              s2 = (case fin of None \<Rightarrow> s1 | Some (p, op) \<Rightarrow> on_finally op s1)
          in if (case fin of None \<Rightarrow> False | Some (p, op) \<Rightarrow> p \<in> set awaited)
             then main_loop stringify a None s2 evs
             else
               case wait_for stringify a awaited s2 evs of
                 Stuck s3 \<Rightarrow> Some (Pending, s3)
               | Rejected msg s3 \<Rightarrow>
                   Some (Threw (InternalError (''Tool execution failed: '' @ msg)), s3)
               | Woken p op s3 evs' \<Rightarrow> main_loop stringify a (Some (p, op)) s3 evs')"

declare main_loop.simps [code]

definition batch_init :: "batch_args \<Rightarrow> int \<Rightarrow> server_state \<Rightarrow> batch_state" where
  "batch_init a now st =
     \<lparr>results = [], queue = operations a, inProgress = [], racing = [], working = [],
      launched = 0, clock = now, srv_cache = cache st, peak = 0\<rparr>"

definition batch_run ::
  "(json \<Rightarrow> string) \<Rightarrow> batch_args \<Rightarrow> int \<Rightarrow> server_state \<Rightarrow> event list
     \<Rightarrow> (batch_outcome \<times> batch_state) option" where
  "batch_run stringify a now st evs = main_loop stringify a None (batch_init a now st) evs"

definition batch_operation ::
  "(json \<Rightarrow> string) \<Rightarrow> batch_args \<Rightarrow> int \<Rightarrow> server_state \<Rightarrow> event list
     \<Rightarrow> (batch_outcome \<times> server_state) option" where
  "batch_operation stringify a now st evs =
     map_option (\<lambda>(out, s). (out, st\<lparr>cache := srv_cache s\<rparr>)) (batch_run stringify a now st evs)"

section \<open>Predicates and sample inputs used by the properties\<close>

text \<open>
  \<open>fixed_max oid m\<close> holds of a step when, if it is a call on the id \<open>oid\<close>, its
  \<^verbatim>\<open>max_retries\<close> is the integer \<open>m\<close>: a sequence of such steps uses one fixed, integer
  \<^verbatim>\<open>max_retries\<close> for that id. \<open>keeps_entry lastAt\<close> holds of a step that is not a
  sweep dropping an entry whose last attempt was at \<open>lastAt\<close>: a call, or a sweep at a time
  at most an hour after \<open>lastAt\<close>.
\<close>

definition fixed_max :: "string \<Rightarrow> int \<Rightarrow> retry_step \<Rightarrow> bool" where
  "fixed_max oid m step =
     (case step of
        Call a now \<Rightarrow> operation_id a \<noteq> oid \<or> dflt 3 (max_retries a) = of_int m
      | Sweep now \<Rightarrow> True)"

definition keeps_entry :: "int \<Rightarrow> retry_step \<Rightarrow> bool" where
  "keeps_entry lastAt step =
     (case step of Call a now \<Rightarrow> True | Sweep now \<Rightarrow> \<not> lastAt < now - 3600000)"

definition never_succeeded :: "server_state \<Rightarrow> bool" where
  "never_succeeded st = list_all (\<lambda>(k, e). \<not> success e) (retryMetadata st)"

definition attempts_within :: "string \<Rightarrow> int \<Rightarrow> server_state \<Rightarrow> bool" where
  "attempts_within oid m st =
     list_all (\<lambda>(k, e). k = oid \<longrightarrow> int (attempts e) \<le> m) (retryMetadata st)"

definition is_already_succeeded :: "retry_response \<Rightarrow> bool" where
  "is_already_succeeded r = (case r of already_succeeded n \<Rightarrow> True | _ \<Rightarrow> False)"

definition retry3 :: retry_args where
  "retry3 = \<lparr>operation_id = ''op'', operation_type = ''http_request'', operation_data = JNull,
             max_retries = Some 3, initial_delay_ms = None, should_execute = None\<rparr>"


text \<open>The attempts the retry store holds, id by id.\<close>

definition stored_attempts :: "server_state \<Rightarrow> (string \<times> nat) list" where
  "stored_attempts st = map (\<lambda>(k, e). (k, attempts e)) (retryMetadata st)"

definition retry_half :: retry_args where
  "retry_half = \<lparr>operation_id = ''op'', operation_type = ''http_request'', operation_data = JNull,
                max_retries = Some (5 / 2), initial_delay_ms = None, should_execute = None\<rparr>"

definition retry_other :: retry_args where
  "retry_other = \<lparr>operation_id = ''other'', operation_type = ''custom'', operation_data = JNull,
                 max_retries = Some 10, initial_delay_ms = None, should_execute = None\<rparr>"

text \<open>The bound the batch runner keeps: \<^verbatim>\<open>concurrency\<close>, or 0 when it is negative.\<close>

definition limit_of :: "batch_args \<Rightarrow> int" where
  "limit_of a = max 0 (dflt 5 (concurrency a))"

text \<open>
  The invariant of the scheduling loop for operations with pairwise distinct ids: the ids
  of the queued and the unsettled operations are distinct, the unsettled promises have
  distinct numbers below \<open>launched\<close>, every unsettled promise is the one \<^verbatim>\<open>inProgress\<close> holds
  under its operation's id, \<^verbatim>\<open>inProgress\<close> and the peak stay within the bound, and the id
  \<open>fin\<close> of an operation whose \<^verbatim>\<open>.finally\<close> is still queued belongs to no queued or unsettled
  operation. \<open>all_accounted\<close>: every operation of the input has a result, is queued or is
  in flight.
\<close>

definition batch_inv :: "batch_args \<Rightarrow> string option \<Rightarrow> batch_state \<Rightarrow> bool" where
  "batch_inv a fin s =
     (distinct (map op_id (queue s) @ map (op_id \<circ> snd) (racing s)) \<and>
      distinct (map fst (racing s)) \<and>
      list_all (\<lambda>(p, op). p < launched s \<and> (op_id op, p) \<in> set (inProgress s)) (racing s) \<and>
      int (length (inProgress s)) \<le> limit_of a \<and>
      int (peak s) \<le> limit_of a \<and>
      (case fin of
         None \<Rightarrow> True
       | Some i \<Rightarrow> i \<notin> set (map op_id (queue s) @ map (op_id \<circ> snd) (racing s))))"

definition all_accounted :: "batch_args \<Rightarrow> batch_state \<Rightarrow> bool" where
  "all_accounted a s =
     (set (map op_id (operations a))
        \<subseteq> set (map r_id (results s)) \<union> set (map op_id (queue s))
            \<union> set (map (op_id \<circ> snd) (racing s)))"

text \<open>
  Sample inputs. \<open>example_stringify\<close> stands in for \<^verbatim>\<open>JSON.stringify\<close> on the sample data
  (strings that need no escaping). The sample operations have the type \<^verbatim>\<open>fetch\<close> and their
  id as data; \<^verbatim>\<open>timeout_ms\<close> is 100, below the duration the simulated work can take, so that
  a timeout can win the race.
\<close>

definition example_stringify :: "json \<Rightarrow> string" where
  "example_stringify j = (case j of JStr s \<Rightarrow> ''\"'' @ s @ ''\"'' | _ \<Rightarrow> ''null'')"

definition example_op :: "string \<Rightarrow> operation" where
  "example_op i = \<lparr>op_id = i, op_type = ''fetch'', op_data = JStr i\<rparr>"

definition example_batch :: "string list \<Rightarrow> int option \<Rightarrow> bool option \<Rightarrow> batch_args" where
  "example_batch ids c coe =
     \<lparr>operations = map example_op ids, concurrency = c, timeout_ms = Some 100,
      continue_on_error = coe, use_cache = None, cache_ttl_seconds = None\<rparr>"

text \<open>Readings of how a call stands: its outcome, and what the handler's variables hold.\<close>

definition outcome_of :: "(batch_outcome \<times> 's) option \<Rightarrow> batch_outcome option" where
  "outcome_of r = map_option fst r"

definition in_flight_peak :: "(batch_outcome \<times> batch_state) option \<Rightarrow> nat option" where
  "in_flight_peak r = map_option (\<lambda>(out, s). peak s) r"

definition in_flight_now :: "(batch_outcome \<times> batch_state) option \<Rightarrow> nat option" where
  "in_flight_now r = map_option (\<lambda>(out, s). length (racing s)) r"

definition recorded_ids :: "(batch_outcome \<times> batch_state) option \<Rightarrow> string list option" where
  "recorded_ids r = map_option (\<lambda>(out, s). map r_id (results s)) r"

definition started_count :: "(batch_outcome \<times> batch_state) option \<Rightarrow> nat option" where
  "started_count r = map_option (\<lambda>(out, s). launched s) r"

definition is_input_error :: "batch_outcome \<Rightarrow> bool" where
  "is_input_error out = (case out of Threw (InvalidParams m) \<Rightarrow> True | _ \<Rightarrow> False)"

definition put_succeeded :: "mcp_error + cache_put_response \<Rightarrow> bool" where
  "put_succeeded r = (case r of Inl e \<Rightarrow> False | Inr resp \<Rightarrow> put_success resp)"

definition is_invalid_params :: "mcp_error + 'r \<Rightarrow> bool" where
  "is_invalid_params r = (case r of Inl (InvalidParams m) \<Rightarrow> True | _ \<Rightarrow> False)"

definition is_returned :: "batch_outcome option \<Rightarrow> bool" where
  "is_returned r = (case r of Some (Returned resp) \<Rightarrow> True | _ \<Rightarrow> False)"

section \<open>Properties of the cache\<close>

text \<open>
  Claim C4. After \<^verbatim>\<open>cache_put(k, v, ttl, ns)\<close> at time \<open>t0\<close>, a \<^verbatim>\<open>cache_get(k, ns)\<close> at a time
  \<open>t1\<close> before \<open>t0 + 1000 * ttl\<close> returns \<^verbatim>\<open>found = true\<close> with the value \<open>v\<close>; at a time
  \<open>t1\<close> from \<open>t0 + 1000 * ttl\<close> on it returns \<^verbatim>\<open>found = false\<close>, and the read has removed the
  entry from the store. This holds for every ttl, in range or not, and for the default.
\<close>

theorem cache_put_then_get:
  "(t1 < t0 + dflt 300 ttl * 1000 \<longrightarrow>
      found (fst (cache_get k ns t1 (snd (cache_put k v ttl ns t0 st)))) \<and>
      got_value (fst (cache_get k ns t1 (snd (cache_put k v ttl ns t0 st)))) = Some v) \<and>
   (t0 + dflt 300 ttl * 1000 \<le> t1 \<longrightarrow>
      \<not> found (fst (cache_get k ns t1 (snd (cache_put k v ttl ns t0 st)))) \<and>
      getCacheKey k (Some (dflt ''default'' ns))
        \<notin> fst ` set (cache (snd (cache_get k ns t1 (snd (cache_put k v ttl ns t0 st))))))"
  by (simp add: cache_get_def cache_put_def Let_def update_conv' delete_notin_dom)

theorem cache_put_then_get_witness:
  "found (fst (cache_get ''k'' None 299999
                 (snd (cache_put ''k'' (JStr ''v'') (Some 300) None 0 initial_state)))) \<and>
   got_value (fst (cache_get ''k'' None 299999
                 (snd (cache_put ''k'' (JStr ''v'') (Some 300) None 0 initial_state))))
     = Some (JStr ''v'') \<and>
   \<not> found (fst (cache_get ''k'' None 300000
                 (snd (cache_put ''k'' (JStr ''v'') (Some 300) None 0 initial_state)))) \<and>
   cache (snd (cache_get ''k'' None 300000
                 (snd (cache_put ''k'' (JStr ''v'') (Some 300) None 0 initial_state)))) = []"
  using cache_put_then_get [of 299999 0 "Some 300" "''k''" None "JStr ''v''" initial_state]
        cache_put_then_get [of 300000 0 "Some 300" "''k''" None "JStr ''v''" initial_state]
  by (simp add: cache_get_def cache_put_def initial_state_def dflt_def getCacheKey_def Let_def)


section \<open>Properties of the rate limiter\<close>

text \<open>
  Claim C3. With \<^verbatim>\<open>max_requests = 5\<close>, \<^verbatim>\<open>window_seconds = 60\<close> and \<^verbatim>\<open>increment = true\<close>, six
  checks of a fresh resource within one window are allowed five times and refused the
  sixth time. The field \<^verbatim>\<open>remaining\<close> is computed before the counter is incremented, so
  the six responses carry 5, 4, 3, 2, 1 and 0, not 4, 3, 2, 1, 0 and 0.
\<close>

theorem rate_limit_six_checks:
  "map allowed_remaining
     (rate_limit_calls ''api'' (Some 5) (Some 60) (Some True)
        [0, 1000, 2000, 3000, 4000, 5000] initial_state)
   = [Some (True, 5), Some (True, 4), Some (True, 3), Some (True, 2), Some (True, 1),
      Some (False, 0)]"
  by (simp add: rate_limit_check_def initial_state_def dflt_def ceil_div_1000_def
      valid_date_def allowed_remaining_def)

section \<open>Properties of the retry tracker\<close>

lemma in_set_updateD:
  "(k, e) \<in> set (AList.update k' v al) \<Longrightarrow> (k, e) \<in> set al \<or> (k = k' \<and> e = v)"
  by (induction al) (auto split: if_splits)

text \<open>
  The only entry \<^verbatim>\<open>retry_operation\<close> writes is the one of its own id, with one more attempt
  than before, and it writes it only below \<^verbatim>\<open>max_retries\<close> and for an id not marked
  successful.
\<close>

lemma retry_operation_entries:
  "(k, e) \<in> set (retryMetadata (snd (retry_operation a now st))) \<Longrightarrow>
   (k, e) \<in> set (retryMetadata st) \<or>
   (k = operation_id a \<and> \<not> success (get_metadata st k) \<and>
    of_nat (attempts (get_metadata st k)) < dflt 3 (max_retries a) \<and>
    e = (get_metadata st k)\<lparr>attempts := attempts (get_metadata st k) + 1, lastAttempt := now\<rparr>)"
  by (auto simp: retry_operation_def Let_def split: if_splits dest!: in_set_updateD)

lemma get_metadata_cases:
  "get_metadata st k = \<lparr>attempts = 0, lastAttempt = 0, success = False\<rparr> \<or>
   (k, get_metadata st k) \<in> set (retryMetadata st)"
  by (auto simp: get_metadata_def split: option.splits dest: map_of_SomeD)

lemma sweep_entries:
  "(k, e) \<in> set (retryMetadata (sweep now st)) \<Longrightarrow> (k, e) \<in> set (retryMetadata st)"
  by (simp add: sweep_def)

lemma never_succeeded_step:
  "never_succeeded st \<Longrightarrow> never_succeeded (retry_apply step st)"
proof (cases step)
  case (Call a now)
  assume inv: "never_succeeded st"
  have "\<not> success e" if "(k, e) \<in> set (retryMetadata (snd (retry_operation a now st)))" for k e
    using retry_operation_entries [OF that] inv
    by (auto simp: never_succeeded_def list_all_iff)
  then show ?thesis
    using Call by (auto simp: never_succeeded_def list_all_iff)
next
  case (Sweep now)
  assume "never_succeeded st"
  then show ?thesis
    using Sweep by (auto simp: never_succeeded_def list_all_iff dest: sweep_entries)
qed

lemma never_succeeded_fold:
  "never_succeeded st \<Longrightarrow> never_succeeded (fold retry_apply steps st)"
  by (induction steps arbitrary: st) (simp_all add: never_succeeded_step)

lemma never_succeeded_run: "never_succeeded (retry_run steps initial_state)"
  unfolding retry_run_def
  by (rule never_succeeded_fold) (simp add: never_succeeded_def initial_state_def)

lemma never_succeeded_metadata: "never_succeeded st \<Longrightarrow> \<not> success (get_metadata st k)"
  using get_metadata_cases [of st k]
  by (auto simp: never_succeeded_def list_all_iff)

lemma attempts_within_step:
  assumes "attempts_within oid m st" and "fixed_max oid m step"
  shows "attempts_within oid m (retry_apply step st)"
proof (cases step)
  case (Call a now)
  have "int (attempts e) \<le> m"
    if "(oid, e) \<in> set (retryMetadata (snd (retry_operation a now st)))" for e
    using retry_operation_entries [OF that] assms Call
    by (auto simp: attempts_within_def list_all_iff fixed_max_def)
  then show ?thesis
    using Call by (auto simp: attempts_within_def list_all_iff)
next
  case (Sweep now)
  then show ?thesis
    using assms(1) by (auto simp: attempts_within_def list_all_iff dest: sweep_entries)
qed

lemma attempts_within_fold:
  "attempts_within oid m st \<Longrightarrow> list_all (fixed_max oid m) steps \<Longrightarrow>
   attempts_within oid m (fold retry_apply steps st)"
  by (induction steps arbitrary: st) (simp_all add: attempts_within_step)

text \<open>
  Claim C9. From the empty store, after any sequence of \<^verbatim>\<open>retry_operation\<close> calls (with any
  arguments, at any times) and sweeps, no stored entry has \<^verbatim>\<open>success = true\<close>, and a further
  call never answers \<^verbatim>\<open>already_succeeded\<close>.
\<close>

theorem success_never_set:
  "list_all (\<lambda>(k, e). \<not> success e) (retryMetadata (retry_run steps initial_state)) \<and>
   \<not> is_already_succeeded (fst (retry_operation a now (retry_run steps initial_state)))"
proof -
  let ?st = "retry_run steps initial_state"
  have inv: "never_succeeded ?st" by (rule never_succeeded_run)
  have "\<not> success (get_metadata ?st (operation_id a))"
    by (rule never_succeeded_metadata [OF inv])
  then have "\<not> is_already_succeeded (fst (retry_operation a now ?st))"
    by (simp add: retry_operation_def Let_def is_already_succeeded_def)
  with inv show ?thesis by (simp add: never_succeeded_def)
qed

text \<open>
  Once the attempts of an id have reached \<^verbatim>\<open>max_retries\<close>, no call changes its entry (a
  call on the id is refused, a call on another id writes another entry), and a sweep
  changes it only by dropping it.
\<close>

lemma get_metadata_other:
  "k \<noteq> k' \<Longrightarrow>
   get_metadata (st\<lparr>retryMetadata := AList.update k' e (retryMetadata st)\<rparr>) k = get_metadata st k"
  by (simp add: get_metadata_def update_conv')

lemma exhausted_call_keeps:
  assumes "m \<le> int (attempts (get_metadata st oid))"
      and "fixed_max oid m (Call c t)"
  shows "get_metadata (snd (retry_operation c t st)) oid = get_metadata st oid"
proof (cases "operation_id c = oid")
  case True
  then have "dflt 3 (max_retries c) = of_int m" using assms(2) by (simp add: fixed_max_def)
  moreover have "(of_int m :: rat) \<le> of_nat (attempts (get_metadata st oid))"
    using assms(1) by (metis of_int_le_iff of_int_of_nat_eq)
  ultimately show ?thesis
    using True by (simp add: retry_operation_def Let_def)
next
  case False
  then show ?thesis
    by (simp add: retry_operation_def Let_def get_metadata_other)
qed

lemma map_of_filter_keeps:
  "(\<And>e. map_of al k = Some e \<Longrightarrow> P (k, e)) \<Longrightarrow> map_of (filter P al) k = map_of al k"
  by (induction al) (auto split: if_splits)

lemma kept_by_sweep:
  assumes "\<not> lastAttempt (get_metadata st oid) < t - 3600000"
  shows "get_metadata (sweep t st) oid = get_metadata st oid"
proof -
  have "map_of (filter (\<lambda>(k, m). \<not> lastAttempt m < t - 3600000) (retryMetadata st)) oid
          = map_of (retryMetadata st) oid"
    using assms by (intro map_of_filter_keeps) (simp add: get_metadata_def)
  then show ?thesis by (simp add: get_metadata_def sweep_def)
qed

lemma exhausted_steps_keep:
  "m \<le> int (attempts (get_metadata st oid)) \<Longrightarrow>
   list_all (fixed_max oid m) further \<Longrightarrow>
   list_all (keeps_entry (lastAttempt (get_metadata st oid))) further \<Longrightarrow>
   get_metadata (fold retry_apply further st) oid = get_metadata st oid"
proof (induction further arbitrary: st)
  case Nil
  then show ?case by simp
next
  case (Cons step further)
  have keep: "get_metadata (retry_apply step st) oid = get_metadata st oid"
  proof (cases step)
    case (Call c t)
    then show ?thesis
      using exhausted_call_keeps [of m st oid c t] Cons.prems(1,2) by simp
  next
    case (Sweep t)
    then show ?thesis
      using kept_by_sweep [of st oid t] Cons.prems(3) by (simp add: keeps_entry_def)
  qed
  then have "get_metadata (fold retry_apply further (retry_apply step st)) oid
               = get_metadata (retry_apply step st) oid"
    using Cons.IH [of "retry_apply step st"] Cons.prems by simp
  then show ?case using keep by simp
qed

text \<open>
  Claim C2, as stated, fails in two ways. The sweep drops an entry whose last attempt is
  more than an hour old: after three attempts with \<^verbatim>\<open>max_retries = 3\<close>, the last at 6000,
  a sweep at 3606001 removes the entry, and the next check answers \<^verbatim>\<open>execute_attempt\<close>
  with attempt number 1. And \<^verbatim>\<open>max_retries\<close> need not be an integer: with
  \<^verbatim>\<open>max_retries = 2.5\<close> the test \<^verbatim>\<open>attempts >= max_retries\<close> lets a third attempt through,
  and the stored count 3 exceeds 2.5.
\<close>

theorem attempts_bound_counterexample:
  "stored_attempts (retry_run [Call retry3 0, Call retry3 2000, Call retry3 6000] initial_state)
     = [(''op'', 3)] \<and>
   fst (retry_operation retry3 3666000
          (retry_run [Call retry3 0, Call retry3 2000, Call retry3 6000, Sweep 3606001]
             initial_state))
     = execute_attempt 1 \<and>
   max_retries retry_half = Some (5 / 2) \<and>
   stored_attempts (retry_run [Call retry_half 0, Call retry_half 2000, Call retry_half 6000]
      initial_state)
     = [(''op'', 3)] \<and>
   (5 / 2 :: rat) < 3"
  by (simp add: retry_run_def retry_operation_def get_metadata_def initial_state_def
      retry3_def retry_half_def dflt_def Let_def sweep_def stored_attempts_def)

text \<open>
  Claim C2, amended. Let every call on the id \<open>oid\<close> use the same integer
  \<^verbatim>\<open>max_retries = m\<close>. Then in every state reached from the empty store (by calls and
  sweeps) the attempts stored for \<open>oid\<close> are at most \<open>m\<close>. And once the attempts of \<open>oid\<close>
  have reached \<open>m\<close>, after any further calls and any further sweeps that come no later
  than an hour after the last attempt (so that none drops the entry), a check on \<open>oid\<close>
  answers \<^verbatim>\<open>max_retries_exceeded\<close> (so not \<^verbatim>\<open>execute_attempt\<close>) with the same attempts, and
  leaves the whole store as it was: the counter is neither incremented nor truncated.
\<close>

theorem attempts_never_exceed_max:
  assumes "list_all (fixed_max oid m) steps"
      and "list_all (fixed_max oid m) further"
      and "list_all (keeps_entry (lastAttempt (get_metadata (retry_run steps initial_state) oid)))
             further"
      and "operation_id a = oid" and "dflt 3 (max_retries a) = of_int m"
  shows "list_all (\<lambda>(k, e). k = oid \<longrightarrow> int (attempts e) \<le> m)
           (retryMetadata (retry_run steps initial_state)) \<and>
         (m \<le> int (attempts (get_metadata (retry_run steps initial_state) oid)) \<longrightarrow>
            retry_operation a now (retry_run (steps @ further) initial_state)
              = (max_retries_exceeded (attempts (get_metadata (retry_run steps initial_state) oid)),
                 retry_run (steps @ further) initial_state))"
proof -
  let ?st = "retry_run steps initial_state"
  let ?st' = "retry_run (steps @ further) initial_state"
  have "attempts_within oid m initial_state"
    by (simp add: attempts_within_def initial_state_def)
  then have within: "attempts_within oid m ?st"
    unfolding retry_run_def using assms(1) by (rule attempts_within_fold)
  have later: "?st' = fold retry_apply further ?st"
    by (simp add: retry_run_def)
  have "retry_operation a now ?st' = (max_retries_exceeded (attempts (get_metadata ?st oid)), ?st')"
    if full: "m \<le> int (attempts (get_metadata ?st oid))"
  proof -
    have same: "get_metadata ?st' oid = get_metadata ?st oid"
      unfolding later by (rule exhausted_steps_keep [OF full assms(2,3)])
    have "\<not> success (get_metadata ?st' oid)"
      by (rule never_succeeded_metadata [OF never_succeeded_run])
    moreover have "(of_int m :: rat) \<le> of_nat (attempts (get_metadata ?st oid))"
      using full by (metis of_int_le_iff of_int_of_nat_eq)
    ultimately show ?thesis
      using same assms(4,5) by (simp add: retry_operation_def Let_def)
  qed
  then show ?thesis
    using within by (simp add: attempts_within_def)
qed

theorem attempts_never_exceed_max_witness:
  "list_all (fixed_max ''op'' 3) [Call retry3 0, Call retry3 2000, Call retry3 6000] \<and>
   list_all (fixed_max ''op'' 3) [Call retry3 6001, Sweep 3606000, Call retry_other 3606002] \<and>
   list_all (keeps_entry 6000) [Call retry3 6001, Sweep 3606000, Call retry_other 3606002] \<and>
   map (\<lambda>(k, e). (k, attempts e))
     (retryMetadata (retry_run [Call retry3 0, Call retry3 2000, Call retry3 6000] initial_state))
     = [(''op'', 3)] \<and>
   fst (retry_operation retry3 3666000
          (retry_run ([Call retry3 0, Call retry3 2000, Call retry3 6000]
                      @ [Call retry3 6001, Sweep 3606000, Call retry_other 3606002]) initial_state))
     = max_retries_exceeded 3 \<and>
   map (\<lambda>(k, e). (k, attempts e))
     (retryMetadata (snd (retry_operation retry3 3666000
          (retry_run ([Call retry3 0, Call retry3 2000, Call retry3 6000]
                      @ [Call retry3 6001, Sweep 3606000, Call retry_other 3606002]) initial_state))))
     = [(''op'', 3), (''other'', 1)]"
proof -
  have fixed: "list_all (fixed_max ''op'' 3) [Call retry3 0, Call retry3 2000, Call retry3 6000]"
    by (simp add: fixed_max_def retry3_def dflt_def)
  have fixed': "list_all (fixed_max ''op'' 3)
                  [Call retry3 6001, Sweep 3606000, Call retry_other 3606002]"
    by (simp add: fixed_max_def retry3_def retry_other_def dflt_def)
  have run: "retryMetadata (retry_run [Call retry3 0, Call retry3 2000, Call retry3 6000] initial_state)
               = [(''op'', \<lparr>attempts = 3, lastAttempt = 6000, success = False\<rparr>)]"
    by (simp add: retry_run_def retry_operation_def get_metadata_def initial_state_def
        retry3_def dflt_def Let_def)
  have keeps: "list_all (keeps_entry (lastAttempt (get_metadata
                 (retry_run [Call retry3 0, Call retry3 2000, Call retry3 6000] initial_state) ''op'')))
                 [Call retry3 6001, Sweep 3606000, Call retry_other 3606002]"
    by (simp add: keeps_entry_def get_metadata_def run)
  have keeps': "list_all (keeps_entry 6000)
                  [Call retry3 6001, Sweep 3606000, Call retry_other 3606002]"
    by (simp add: keeps_entry_def)
  have run': "retryMetadata (retry_run ([Call retry3 0, Call retry3 2000, Call retry3 6000]
                      @ [Call retry3 6001, Sweep 3606000, Call retry_other 3606002]) initial_state)
               = [(''op'', \<lparr>attempts = 3, lastAttempt = 6000, success = False\<rparr>),
                  (''other'', \<lparr>attempts = 1, lastAttempt = 3606002, success = False\<rparr>)]"
    by (simp add: retry_run_def retry_operation_def get_metadata_def initial_state_def
        retry3_def retry_other_def dflt_def Let_def sweep_def)
  show ?thesis
    using attempts_never_exceed_max [OF fixed fixed' keeps, of retry3 3666000]
      fixed fixed' keeps' run run'
    by (simp add: retry3_def dflt_def get_metadata_def)
qed




section \<open>Properties of the batch runner\<close>

subsection \<open>The invariant of the scheduling loop\<close>

lemma length_update_le: "length (AList.update k v al) \<le> Suc (length al)"
  by (induction al) auto

lemma in_set_update_same: "(k, v) \<in> set (AList.update k v al)"
  by (induction al) auto

lemma in_set_update_other:
  "k' \<noteq> k \<Longrightarrow> (k', v') \<in> set al \<Longrightarrow> (k', v') \<in> set (AList.update k v al)"
  by (induction al) auto

lemma in_set_delete_other:
  "k' \<noteq> k \<Longrightarrow> (k', v') \<in> set al \<Longrightarrow> (k', v') \<in> set (AList.delete k al)"
  by (simp add: AList.delete_eq)

lemma racing_registered:
  "batch_inv a fin s \<Longrightarrow> (p, op) \<in> set (racing s) \<Longrightarrow> (op_id op, p) \<in> set (inProgress s)"
  by (auto simp: batch_inv_def list_all_iff)

lemma racing_le_inProgress:
  assumes "batch_inv a fin s"
  shows "length (racing s) \<le> length (inProgress s)"
proof -
  let ?ids = "map (op_id \<circ> snd) (racing s)"
  have d: "distinct ?ids"
    using assms by (simp add: batch_inv_def)
  have sub: "set ?ids \<subseteq> set (map fst (inProgress s))"
  proof
    fix x assume "x \<in> set ?ids"
    then obtain p op where mem: "(p, op) \<in> set (racing s)" and x: "x = op_id op" by auto
    have "(op_id op, p) \<in> set (inProgress s)"
      by (rule racing_registered [OF assms mem])
    then show "x \<in> set (map fst (inProgress s))" using x by force
  qed
  have "length (racing s) = card (set ?ids)"
    using distinct_card [OF d] by simp
  also have "\<dots> \<le> card (set (map fst (inProgress s)))"
    using sub by (intro card_mono) simp_all
  also have "\<dots> \<le> length (inProgress s)"
    using card_length [of "map fst (inProgress s)"] by simp
  finally show ?thesis .
qed

lemma batch_inv_weaken: "batch_inv a fin s \<Longrightarrow> batch_inv a None s"
  by (simp add: batch_inv_def)

lemma batch_inv_same:
  assumes "batch_inv a fin s" and "queue s' = queue s" and "racing s' = racing s"
      and "inProgress s' = inProgress s" and "peak s' = peak s" and "launched s' = launched s"
  shows "batch_inv a fin s'"
  using assms by (simp add: batch_inv_def split: option.splits)

lemma batch_inv_start_one:
  assumes inv: "batch_inv a fin s" and q: "queue s = op # rest"
      and room: "int (length (inProgress s)) < dflt 5 (concurrency a)"
  shows "batch_inv a fin (start_one f a op (s\<lparr>queue := rest\<rparr>))"
proof -
  have len: "length (racing s) \<le> length (inProgress s)"
    by (rule racing_le_inProgress [OF inv])
  have hit: "batch_inv a fin (s\<lparr>queue := rest, results := r\<rparr>)" for r
    using inv q by (simp add: batch_inv_def split: option.splits)
  have launch: "batch_inv a fin
      (s\<lparr>queue := rest,
         inProgress := AList.update (op_id op) (launched s) (inProgress s),
         racing := racing s @ [(launched s, op)],
         working := w, launched := Suc (launched s),
         peak := max (peak s) (Suc (length (racing s)))\<rparr>)" for w
  proof -
    have fresh_id: "op_id op \<notin> set (map (op_id \<circ> snd) (racing s))"
      using inv q by (auto simp: batch_inv_def)
    have below: "p < launched s" if "(p, op') \<in> set (racing s)" for p op'
      using inv that by (auto simp: batch_inv_def list_all_iff)
    have fresh_p: "launched s \<notin> set (map fst (racing s))"
      using below by force
    have reg: "(op_id op', p) \<in> set (AList.update (op_id op) (launched s) (inProgress s))"
      if mem: "(p, op') \<in> set (racing s)" for p op'
    proof -
      have "op_id op' \<noteq> op_id op" using fresh_id mem by force
      then show ?thesis
        using racing_registered [OF inv mem] by (rule in_set_update_other)
    qed
    have c1: "distinct (map op_id rest @ map (op_id \<circ> snd) (racing s @ [(launched s, op)]))"
      using inv q by (auto simp: batch_inv_def)
    have c2: "distinct (map fst (racing s @ [(launched s, op)]))"
      using inv fresh_p by (simp add: batch_inv_def)
    have c3: "list_all (\<lambda>(p, op'). p < Suc (launched s) \<and>
                (op_id op', p) \<in> set (AList.update (op_id op) (launched s) (inProgress s)))
              (racing s @ [(launched s, op)])"
      using reg below by (auto simp: list_all_iff in_set_update_same less_Suc_eq)
    have c4: "int (length (AList.update (op_id op) (launched s) (inProgress s))) \<le> limit_of a"
      using length_update_le [of "op_id op" "launched s" "inProgress s"] room
      by (simp add: limit_of_def)
    have c5: "int (max (peak s) (Suc (length (racing s)))) \<le> limit_of a"
    proof -
      have "int (Suc (length (racing s))) \<le> limit_of a"
        using len room by (simp add: limit_of_def)
      moreover have "int (peak s) \<le> limit_of a"
        using inv by (simp add: batch_inv_def)
      ultimately show ?thesis by (simp add: max_def)
    qed
    have c6: "case fin of None \<Rightarrow> True
              | Some i \<Rightarrow>
                  i \<notin> set (map op_id rest @ map (op_id \<circ> snd) (racing s @ [(launched s, op)]))"
      using inv q by (auto simp: batch_inv_def split: option.splits)
    show ?thesis
      unfolding batch_inv_def using c1 c2 c3 c4 c5 c6 by (simp split: option.splits)
  qed
  show ?thesis
    using hit launch by (simp add: start_one_def split: option.splits)
qed

lemma batch_inv_start_ops: "batch_inv a fin s \<Longrightarrow> batch_inv a fin (start_ops f a s)"
proof (induction f a s rule: start_ops.induct)
  case (1 f a s)
  show ?case
  proof (cases "queue s")
    case Nil
    then show ?thesis using "1.prems" by (subst start_ops.simps) simp
  next
    case (Cons op rest)
    show ?thesis
    proof (cases "int (length (inProgress s)) < dflt 5 (concurrency a)")
      case True
      have "batch_inv a fin (start_one f a op (s\<lparr>queue := rest\<rparr>))"
        by (rule batch_inv_start_one [OF "1.prems" Cons True])
      then have "batch_inv a fin (start_ops f a (start_one f a op (s\<lparr>queue := rest\<rparr>)))"
        by (rule "1.IH" [OF Cons True])
      then show ?thesis using Cons True by (subst start_ops.simps) simp
    next
      case False
      then show ?thesis using Cons "1.prems" by (subst start_ops.simps) simp
    qed
  qed
qed

lemma batch_inv_finally:
  assumes inv: "batch_inv a (Some (op_id op)) s"
  shows "batch_inv a None (on_finally op s)"
proof -
  have notin: "op_id op \<notin> set (map (op_id \<circ> snd) (racing s))"
    using inv by (simp add: batch_inv_def)
  have c3: "list_all (\<lambda>(p', op'). p' < launched s \<and>
              (op_id op', p') \<in> set (AList.delete (op_id op) (inProgress s))) (racing s)"
  proof -
    have "(op_id op', p') \<in> set (AList.delete (op_id op) (inProgress s))"
      if mem: "(p', op') \<in> set (racing s)" for p' op'
    proof -
      have "op_id op' \<noteq> op_id op" using notin mem by force
      then show ?thesis
        using racing_registered [OF inv mem] by (rule in_set_delete_other)
    qed
    moreover have "p' < launched s" if "(p', op') \<in> set (racing s)" for p' op'
      using inv that by (auto simp: batch_inv_def list_all_iff)
    ultimately show ?thesis by (auto simp: list_all_iff)
  qed
  have c4: "int (length (AList.delete (op_id op) (inProgress s))) \<le> limit_of a"
    using inv length_delete_le [of "op_id op" "inProgress s"] by (simp add: batch_inv_def)
  show ?thesis
    unfolding batch_inv_def on_finally_def using inv c3 c4 by (simp add: batch_inv_def)
qed

lemma batch_inv_settle:
  assumes inv: "batch_inv a None s" and p: "map_of (racing s) p = Some op"
      and r': "racing s' = AList.delete p (racing s)"
      and q': "queue s' = queue s \<or> queue s' = []"
      and i': "inProgress s' = inProgress s" and k': "peak s' = peak s"
      and l': "launched s' = launched s"
  shows "batch_inv a (Some (op_id op)) s'"
proof -
  have mem: "(p, op) \<in> set (racing s)" using p by (rule map_of_SomeD)
  have d: "distinct (map (op_id \<circ> snd) (racing s))"
    using inv by (simp add: batch_inv_def)
  have inj: "inj_on (op_id \<circ> snd) (set (racing s))"
    using d by (simp add: distinct_map)
  have sub: "set (AList.delete p (racing s)) \<subseteq> set (racing s)"
    by (auto simp: AList.delete_eq)
  have notin: "op_id op \<notin> set (map (op_id \<circ> snd) (AList.delete p (racing s)))"
  proof
    assume "op_id op \<in> set (map (op_id \<circ> snd) (AList.delete p (racing s)))"
    then obtain p' op' where po': "(p', op') \<in> set (AList.delete p (racing s))"
      and eq: "op_id op' = op_id op" by auto
    have "p' \<noteq> p" using po' by (auto simp: AList.delete_eq)
    moreover have "(p', op') \<in> set (racing s)" using po' sub by auto
    ultimately show False
      using inj_onD [OF inj, of "(p', op')" "(p, op)"] mem eq by simp
  qed
  have d': "distinct (map (op_id \<circ> snd) (AList.delete p (racing s)))"
    using d by (simp add: AList.delete_eq distinct_map_filter)
  have dp': "distinct (map fst (AList.delete p (racing s)))"
    using inv by (simp add: batch_inv_def distinct_delete)
  have q: "op_id op \<notin> set (map op_id (queue s))"
    using inv mem by (force simp: batch_inv_def)
  have disj: "set (map op_id (queue s)) \<inter> set (map (op_id \<circ> snd) (AList.delete p (racing s))) = {}"
    using inv sub by (auto simp: batch_inv_def)
  have reg: "list_all (\<lambda>(p, op). p < launched s \<and> (op_id op, p) \<in> set (inProgress s))
               (AList.delete p (racing s))"
    using inv sub by (auto simp: batch_inv_def list_all_iff)
  have dq: "distinct (map op_id (queue s))" using inv by (simp add: batch_inv_def)
  have rest: "int (length (inProgress s)) \<le> limit_of a" "int (peak s) \<le> limit_of a"
    using inv by (simp_all add: batch_inv_def)
  from q' show ?thesis
  proof
    assume "queue s' = queue s"
    then show ?thesis
      unfolding batch_inv_def using notin d' dp' q disj reg dq rest r' i' k' l' by simp
  next
    assume "queue s' = []"
    then show ?thesis
      unfolding batch_inv_def using notin d' dp' reg rest r' i' k' l' by simp
  qed
qed

lemma batch_inv_wait_for:
  "batch_inv a None s \<Longrightarrow>
   (case wait_for f a awaited s evs of
      Stuck s' \<Rightarrow> batch_inv a None s'
    | Woken p op s' evs' \<Rightarrow> batch_inv a (Some (op_id op)) s'
    | Rejected msg s' \<Rightarrow> batch_inv a None s')"
proof (induction evs arbitrary: s)
  case Nil
  then show ?case by simp
next
  case (Cons e evs)
  show ?case
  proof (cases e)
    case (WorkDone p now)
    show ?thesis
    proof (cases "map_of (working s) p")
      case None
      then show ?thesis using WorkDone Cons.IH [OF Cons.prems] by simp
    next
      case (Some op)
      define s1 where "s1 = work_finished f a op now (s\<lparr>working := AList.delete p (working s), clock := now\<rparr>)"
      have inv1: "batch_inv a None s1"
        by (rule batch_inv_same [OF Cons.prems]) (simp_all add: s1_def work_finished_def)
      show ?thesis
      proof (cases "map_of (racing s1) p")
        case None
        then show ?thesis
          using WorkDone Some Cons.IH [OF inv1] by (simp add: s1_def)
      next
        case rop: (Some rop)
        define s2 where "s2 = on_fulfilled rop now (s1\<lparr>racing := AList.delete p (racing s1)\<rparr>)"
        have inv2: "batch_inv a (Some (op_id rop)) s2"
          by (rule batch_inv_settle [OF inv1 rop]) (simp_all add: s2_def on_fulfilled_def)
        have inv3: "batch_inv a None (on_finally rop s2)"
          by (rule batch_inv_finally [OF inv2])
        show ?thesis
          using WorkDone Some rop inv2 Cons.IH [OF inv3]
          by (simp add: s1_def [symmetric] s2_def [symmetric] Let_def)
      qed
    qed
  next
    case (TimeoutFired p now)
    show ?thesis
    proof (cases "map_of (racing s) p")
      case None
      then show ?thesis using TimeoutFired Cons.IH [OF Cons.prems] by simp
    next
      case (Some op)
      define s1 where "s1 = on_rejected a op (s\<lparr>racing := AList.delete p (racing s), clock := now\<rparr>)"
      have inv1: "batch_inv a (Some (op_id op)) s1"
        by (rule batch_inv_settle [OF Cons.prems Some])
           (simp_all add: s1_def on_rejected_def Let_def)
      have inv3: "batch_inv a None (on_finally op s1)"
        by (rule batch_inv_finally [OF inv1])
      show ?thesis
        using TimeoutFired Some batch_inv_weaken [OF inv1] Cons.IH [OF inv3]
        by (simp add: s1_def [symmetric] Let_def)
    qed
  qed
qed

lemma awaited_all_racing:
  assumes "batch_inv a fin s"
  shows "set (map fst (racing s)) \<subseteq> set (map snd (inProgress s))"
proof
  fix p assume "p \<in> set (map fst (racing s))"
  then obtain op where mem: "(p, op) \<in> set (racing s)" by auto
  have "(op_id op, p) \<in> set (inProgress s)"
    by (rule racing_registered [OF assms mem])
  then show "p \<in> set (map snd (inProgress s))" by force
qed

lemma accounted_same:
  assumes "all_accounted a s" and "queue s' = queue s" and "racing s' = racing s"
      and "results s' = results s"
  shows "all_accounted a s'"
  using assms by (simp add: all_accounted_def)

lemma accounted_start_one:
  assumes acc: "all_accounted a s" and q: "queue s = op # rest"
  shows "all_accounted a (start_one f a op (s\<lparr>queue := rest\<rparr>))"
proof -
  have "all_accounted a (s\<lparr>queue := rest, results := results s @ [r]\<rparr>)" if "r_id r = op_id op" for r
    using acc q that by (auto simp: all_accounted_def)
  moreover have "all_accounted a
      (s\<lparr>queue := rest, inProgress := i, racing := racing s @ [(n, op)],
         working := w, launched := l, peak := k\<rparr>)" for i n w l k
    using acc q by (auto simp: all_accounted_def)
  ultimately show ?thesis
    by (simp add: start_one_def split: option.splits)
qed

lemma accounted_start_ops: "all_accounted a s \<Longrightarrow> all_accounted a (start_ops f a s)"
proof (induction f a s rule: start_ops.induct)
  case (1 f a s)
  show ?case
  proof (cases "queue s")
    case Nil
    then show ?thesis using "1.prems" by (subst start_ops.simps) simp
  next
    case (Cons op rest)
    show ?thesis
    proof (cases "int (length (inProgress s)) < dflt 5 (concurrency a)")
      case True
      have "all_accounted a (start_one f a op (s\<lparr>queue := rest\<rparr>))"
        by (rule accounted_start_one [OF "1.prems" Cons])
      then have "all_accounted a (start_ops f a (start_one f a op (s\<lparr>queue := rest\<rparr>)))"
        by (rule "1.IH" [OF Cons True])
      then show ?thesis using Cons True by (subst start_ops.simps) simp
    next
      case False
      then show ?thesis using Cons "1.prems" by (subst start_ops.simps) simp
    qed
  qed
qed

lemma accounted_settle:
  assumes inv: "batch_inv a None s" and acc: "all_accounted a s"
      and p: "map_of (racing s) p = Some rop"
      and r': "racing s' = AList.delete p (racing s)"
      and q': "queue s' = queue s"
      and res': "results s' = results s @ [r]" and rid: "r_id r = op_id rop"
  shows "all_accounted a s'"
proof -
  have dp: "distinct (map fst (racing s))"
    using inv by (simp add: batch_inv_def)
  have "set (map (op_id \<circ> snd) (racing s))
          \<subseteq> insert (op_id rop) (set (map (op_id \<circ> snd) (AList.delete p (racing s))))"
  proof
    fix x assume "x \<in> set (map (op_id \<circ> snd) (racing s))"
    then obtain p' op' where mem: "(p', op') \<in> set (racing s)" and x: "x = op_id op'" by auto
    show "x \<in> insert (op_id rop) (set (map (op_id \<circ> snd) (AList.delete p (racing s))))"
    proof (cases "p' = p")
      case True
      then have "map_of (racing s) p = Some op'"
        using map_of_is_SomeI [OF dp mem] by simp
      then show ?thesis using p x by simp
    next
      case False
      then have "(p', op') \<in> set (AList.delete p (racing s))"
        using mem by (simp add: AList.delete_eq)
      then show ?thesis using x by force
    qed
  qed
  moreover have "set (map op_id (operations a))
          \<subseteq> set (map r_id (results s)) \<union> set (map op_id (queue s))
              \<union> set (map (op_id \<circ> snd) (racing s))"
    using acc by (simp add: all_accounted_def)
  ultimately have "set (map op_id (operations a))
          \<subseteq> insert (op_id rop) (set (map r_id (results s))) \<union> set (map op_id (queue s))
              \<union> set (map (op_id \<circ> snd) (AList.delete p (racing s)))"
    by blast
  then show ?thesis
    using r' q' res' rid by (simp add: all_accounted_def)
qed

lemma accounted_wait_for:
  "batch_inv a None s \<Longrightarrow> all_accounted a s \<Longrightarrow>
   set (map fst (racing s)) \<subseteq> set awaited \<Longrightarrow>
   (case wait_for f a awaited s evs of
      Woken p op s' evs' \<Rightarrow> all_accounted a s'
    | _ \<Rightarrow> True)"
proof (induction evs arbitrary: s)
  case Nil
  then show ?case by simp
next
  case (Cons e evs)
  show ?case
  proof (cases e)
    case (WorkDone p now)
    show ?thesis
    proof (cases "map_of (working s) p")
      case None
      then show ?thesis using WorkDone Cons.IH [OF Cons.prems] by simp
    next
      case (Some op)
      define s1 where "s1 = work_finished f a op now (s\<lparr>working := AList.delete p (working s), clock := now\<rparr>)"
      have inv1: "batch_inv a None s1"
        by (rule batch_inv_same [OF Cons.prems(1)]) (simp_all add: s1_def work_finished_def)
      have acc1: "all_accounted a s1"
        by (rule accounted_same [OF Cons.prems(2)]) (simp_all add: s1_def work_finished_def)
      have r1: "racing s1 = racing s" by (simp add: s1_def work_finished_def)
      have k1: "set (map fst (racing s1)) \<subseteq> set awaited"
        using Cons.prems(3) r1 by simp
      show ?thesis
      proof (cases "map_of (racing s1) p")
        case None
        then show ?thesis
          using WorkDone Some Cons.IH [OF inv1 acc1 k1] by (simp add: s1_def)
      next
        case rop: (Some rop)
        define s2 where "s2 = on_fulfilled rop now (s1\<lparr>racing := AList.delete p (racing s1)\<rparr>)"
        have "(p, rop) \<in> set (racing s1)" using rop by (rule map_of_SomeD)
        then have aw: "p \<in> set awaited" using k1 by force
        have "all_accounted a s2"
          by (rule accounted_settle [OF inv1 acc1 rop, where r = "\<lparr>r_id = op_id rop, r_success = True, r_cached = False,
            r_result = Some (work_result rop now), r_error = None\<rparr>"])
             (simp_all add: s2_def on_fulfilled_def)
        then show ?thesis
          using WorkDone Some rop aw
          by (simp add: s1_def [symmetric] s2_def [symmetric] Let_def)
      qed
    qed
  next
    case (TimeoutFired p now)
    show ?thesis
    proof (cases "map_of (racing s) p")
      case None
      then show ?thesis using TimeoutFired Cons.IH [OF Cons.prems] by simp
    next
      case (Some op)
      have "(p, op) \<in> set (racing s)" using Some by (rule map_of_SomeD)
      then have "p \<in> set awaited" using Cons.prems(3) by force
      then show ?thesis using TimeoutFired Some by (simp add: Let_def)
    qed
  qed
qed

lemma find_by_id:
  "i \<in> set (map r_id rs) \<Longrightarrow> map_option r_id (find (\<lambda>r. r_id r = i) rs) = Some i"
  by (induction rs) auto

lemma respond_ids:
  assumes "set (map op_id (operations a)) \<subseteq> set (map r_id (results s))"
  shows "map (map_option r_id) (sorted_results (respond a s)) = map (Some \<circ> op_id) (operations a)"
proof -
  have "map_option r_id (find (\<lambda>r. r_id r = op_id op) (results s)) = Some (op_id op)"
    if "op \<in> set (operations a)" for op
  proof (rule find_by_id)
    show "op_id op \<in> set (map r_id (results s))" using assms that by auto
  qed
  then show ?thesis by (simp add: respond_def)
qed

lemma batch_main_loop:
  assumes "main_loop f a fin s evs = Some y"
  shows "batch_inv a (map_option (op_id \<circ> snd) fin) s \<longrightarrow>
           batch_inv a None (snd y) \<and>
           (all_accounted a s \<longrightarrow>
              (\<forall>r. fst y = Returned r \<longrightarrow>
                 map (map_option r_id) (sorted_results r) = map (Some \<circ> op_id) (operations a)))"
proof (rule main_loop.raw_induct
    [where P = "\<lambda>f a fin s evs y. batch_inv a (map_option (op_id \<circ> snd) fin) s \<longrightarrow>
           batch_inv a None (snd y) \<and>
           (all_accounted a s \<longrightarrow>
              (\<forall>r. fst y = Returned r \<longrightarrow>
                 map (map_option r_id) (sorted_results r) = map (Some \<circ> op_id) (operations a)))",
     OF _ assms], goal_cases)
  case (1 loop f a fin s evs y)
  let ?goal = "\<lambda>y. \<forall>r. fst y = Returned r \<longrightarrow>
                 map (map_option r_id) (sorted_results r) = map (Some \<circ> op_id) (operations a)"
  show ?case
  proof
    assume inv: "batch_inv a (map_option (op_id \<circ> snd) fin) s"
    show "batch_inv a None (snd y) \<and> (all_accounted a s \<longrightarrow> ?goal y)"
    proof (cases "queue s = [] \<and> inProgress s = []")
      case True
      then have y: "y = (Returned (respond a s), s)" using 1(2) by simp
      have "racing s = []"
      proof (cases "racing s")
        case (Cons po rest)
        then have "(fst po, snd po) \<in> set (racing s)" by simp
        then show ?thesis using racing_registered [OF inv] True by fastforce
      qed simp
      then have "?goal y" if "all_accounted a s"
        using that True y respond_ids [of a s] by (simp add: all_accounted_def)
      then show ?thesis using y batch_inv_weaken [OF inv] by simp
    next
      case False
      define s1 where "s1 = start_ops f a s"
      have inv1: "batch_inv a (map_option (op_id \<circ> snd) fin) s1"
        unfolding s1_def by (rule batch_inv_start_ops [OF inv])
      have acc1: "all_accounted a s1" if "all_accounted a s"
        unfolding s1_def by (rule accounted_start_ops [OF that])
      show ?thesis
      proof (cases "inProgress s1 = []")
        case True
        then have "loop f a fin s1 evs = Some y"
          using 1(2) False by (simp add: s1_def [symmetric])
        then show ?thesis using 1(1) inv1 acc1 by blast
      next
        case busy: False
        define s2 where "s2 = (case fin of None \<Rightarrow> s1 | Some (p, op) \<Rightarrow> on_finally op s1)"
        have inv2: "batch_inv a None s2"
          using inv1 batch_inv_finally [of a _ s1]
          by (auto simp: s2_def split: option.splits)
        have acc2: "all_accounted a s2" if "all_accounted a s"
          using acc1 [OF that]
          by (auto simp: s2_def all_accounted_def on_finally_def split: option.splits)
        have k2: "set (map fst (racing s2)) \<subseteq> set (map snd (inProgress s1))"
          using awaited_all_racing [OF inv1]
          by (auto simp: s2_def on_finally_def split: option.splits)
        show ?thesis
        proof (cases "case fin of None \<Rightarrow> False | Some (p, op) \<Rightarrow> p \<in> set (map snd (inProgress s1))")
          case True
          then have "loop f a None s2 evs = Some y"
            using 1(2) False busy by (simp add: s1_def [symmetric] s2_def [symmetric] Let_def)
          then show ?thesis using 1(1) [of f a None s2 evs y] inv2 acc2 by simp
        next
          case notyet: False
          have w: "(case wait_for f a (map snd (inProgress s1)) s2 evs of
                     Stuck s3 \<Rightarrow> Some (Pending, s3)
                   | Woken p op s3 evs' \<Rightarrow> loop f a (Some (p, op)) s3 evs'
                   | Rejected msg s3 \<Rightarrow>
                       Some (Threw (InternalError (''Tool execution failed: '' @ msg)), s3))
                   = Some y"
            using 1(2) False busy notyet
            by (simp add: s1_def [symmetric] s2_def [symmetric] Let_def)
          show ?thesis
          proof (cases "wait_for f a (map snd (inProgress s1)) s2 evs")
            case (Stuck s3)
            then show ?thesis
              using w batch_inv_wait_for [OF inv2, of f "map snd (inProgress s1)" evs] by auto
          next
            case (Rejected msg s3)
            then show ?thesis
              using w batch_inv_wait_for [OF inv2, of f "map snd (inProgress s1)" evs] by auto
          next
            case (Woken p op s3 evs')
            have run: "loop f a (Some (p, op)) s3 evs' = Some y" using w Woken by simp
            have inv3: "batch_inv a (Some (op_id op)) s3"
              using Woken batch_inv_wait_for [OF inv2, of f "map snd (inProgress s1)" evs] by simp
            have acc3: "all_accounted a s3" if "all_accounted a s"
              using Woken accounted_wait_for [OF inv2 acc2 [OF that] k2, of f evs] by simp
            show ?thesis
              using 1(1) [OF run] inv3 acc3 by simp
          qed
        qed
      qed
    qed
  qed
qed

lemma main_loop_no_input_error:
  assumes "main_loop f a fin s evs = Some y"
  shows "\<not> is_input_error (fst y)"
proof (rule main_loop.raw_induct
    [where P = "\<lambda>f a fin s evs y. \<not> is_input_error (fst y)", OF _ assms], goal_cases)
  case (1 loop f a fin s evs y)
  then show ?case
    by (auto simp: Let_def is_input_error_def split: if_splits wake.splits)
qed

subsection \<open>Order of the results, and what a timeout does to the call\<close>

text \<open>
  When the operations have pairwise distinct ids and the call returns a response, the
  response has one result for each operation, in the order of the input, whatever the
  order of completion and whatever was served from the cache.
\<close>

lemma results_in_input_order:
  assumes "distinct (map op_id (operations a))"
      and "batch_operation f a now st evs = Some (Returned r, st')"
  shows "map (map_option r_id) (sorted_results r) = map (Some \<circ> op_id) (operations a) \<and>
         length (sorted_results r) = length (operations a)"
proof -
  obtain s where run: "main_loop f a None (batch_init a now st) evs = Some (Returned r, s)"
    using assms(2) by (auto simp: batch_operation_def batch_run_def)
  have inv: "batch_inv a None (batch_init a now st)"
    using assms(1) by (simp add: batch_inv_def batch_init_def limit_of_def)
  have acc: "all_accounted a (batch_init a now st)"
    by (simp add: all_accounted_def batch_init_def)
  have ids: "map (map_option r_id) (sorted_results r) = map (Some \<circ> op_id) (operations a)"
    using batch_main_loop [OF run] inv acc by simp
  have "length (sorted_results r) = length (map (map_option r_id) (sorted_results r))"
    by simp
  also have "\<dots> = length (map (Some \<circ> op_id) (operations a))"
    by (simp only: ids)
  finally show ?thesis using ids by simp
qed

text \<open>
  With \<^verbatim>\<open>concurrency\<close> at or below 0 and a non-empty list of operations the inner loop
  starts nothing, nothing is in progress to wait for, and the outer loop spins: the call
  never returns.
\<close>

lemma start_ops_full:
  "dflt 5 (concurrency a) \<le> int (length (inProgress s)) \<Longrightarrow> start_ops f a s = s"
  by (subst start_ops.simps) (simp split: list.splits)

lemma main_loop_spins:
  assumes "main_loop f a fin s evs = Some y"
  shows "\<not> (dflt 5 (concurrency a) \<le> 0 \<and> queue s \<noteq> [] \<and> inProgress s = [])"
proof (rule main_loop.raw_induct
    [where P = "\<lambda>f a fin s evs y.
       \<not> (dflt 5 (concurrency a) \<le> 0 \<and> queue s \<noteq> [] \<and> inProgress s = [])",
     OF _ assms], goal_cases)
  case (1 loop f a fin s evs y)
  show ?case
  proof
    assume spin: "dflt 5 (concurrency a) \<le> 0 \<and> queue s \<noteq> [] \<and> inProgress s = []"
    then have "start_ops f a s = s" by (simp add: start_ops_full)
    then have "loop f a fin s evs = Some y" using 1(2) spin by simp
    then show False using 1(1) spin by blast
  qed
qed

lemma batch_never_returns:
  assumes "dflt 5 (concurrency a) \<le> 0" and "operations a \<noteq> []"
  shows "batch_operation f a now st evs = None"
proof (cases "main_loop f a None (batch_init a now st) evs")
  case None
  then show ?thesis by (simp add: batch_operation_def batch_run_def)
next
  case (Some y)
  then show ?thesis
    using main_loop_spins [OF Some] assms by (simp add: batch_init_def)
qed

text \<open>
  Claim C1. Two operations with distinct ids; the first completes, the second times out
  (\<^verbatim>\<open>timeout_ms\<close> is not validated, and at 100 ms it is shorter than the simulated work can
  be). The rejected promise is one of those the handler awaits with
  \<^verbatim>\<open>await Promise.race(inProgress.values())\<close>, so the \<^verbatim>\<open>await\<close> throws and the call ends with
  an \<^verbatim>\<open>InternalError\<close>: no results array is returned, where the claim has one whose ids
  are those of the input whatever completes or times out.
\<close>

theorem batch_timeout_aborts_call:
  "outcome_of (batch_operation example_stringify (example_batch [''a'', ''b''] None None) 0
      initial_state [WorkDone 0 50, TimeoutFired 1 100])
   = Some (Threw (InternalError ''Tool execution failed: Operation b timed out''))"
  by code_simp

text \<open>
  Claim C7. Three operations, \<^verbatim>\<open>concurrency = 1\<close>, \<^verbatim>\<open>continue_on_error = false\<close>; the first
  completes, the second times out. The \<^verbatim>\<open>.catch\<close> callback records the failure and empties
  the queue, and the third operation is never started (two promises were created); but
  the call throws, so the two results recorded so far are not in its output.
\<close>

theorem fail_fast_loses_results:
  "outcome_of (batch_run example_stringify
      (example_batch [''a'', ''b'', ''c''] (Some 1) (Some False)) 0 initial_state
      [WorkDone 0 50, TimeoutFired 1 150])
   = Some (Threw (InternalError ''Tool execution failed: Operation b timed out'')) \<and>
   recorded_ids (batch_run example_stringify
      (example_batch [''a'', ''b'', ''c''] (Some 1) (Some False)) 0 initial_state
      [WorkDone 0 50, TimeoutFired 1 150]) = Some [''a'', ''b''] \<and>
   started_count (batch_run example_stringify
      (example_batch [''a'', ''b'', ''c''] (Some 1) (Some False)) 0 initial_state
      [WorkDone 0 50, TimeoutFired 1 150]) = Some 2"
  by code_simp

subsection \<open>The bound on operations in flight\<close>

text \<open>
  Claim C8, as stated, fails for operations that share an id: \<^verbatim>\<open>inProgress\<close> is keyed by
  the id, so three operations with the id \<^verbatim>\<open>a\<close> occupy one entry, and with
  \<^verbatim>\<open>concurrency = 2\<close> all three are started before the handler first suspends.
\<close>

theorem in_flight_counterexample:
  "concurrency (example_batch [''a'', ''a'', ''a''] (Some 2) None) = Some 2 \<and>
   in_flight_now (batch_run example_stringify
      (example_batch [''a'', ''a'', ''a''] (Some 2) None) 0 initial_state []) = Some 3 \<and>
   in_flight_peak (batch_run example_stringify
      (example_batch [''a'', ''a'', ''a''] (Some 2) None) 0 initial_state []) = Some 3"
  by code_simp

text \<open>
  Claim C8, amended. For a call whose operations have pairwise distinct ids, however far
  the call has got (whatever events have happened), the number of operations in flight,
  and the largest number there has been, do not exceed \<^verbatim>\<open>concurrency\<close> (0 when it is
  negative); and in any state the inner loop starts nothing unless the size of
  \<^verbatim>\<open>inProgress\<close> is strictly below \<^verbatim>\<open>concurrency\<close>.
\<close>

theorem in_flight_bounded:
  assumes "distinct (map op_id (operations a))"
      and "batch_run f a now st evs = Some (out, s)"
  shows "int (peak s) \<le> max 0 (dflt 5 (concurrency a)) \<and>
         int (length (racing s)) \<le> max 0 (dflt 5 (concurrency a)) \<and>
         (dflt 5 (concurrency a) \<le> int (length (inProgress s')) \<longrightarrow> start_ops f a s' = s')"
proof -
  have "batch_inv a None (batch_init a now st)"
    using assms(1) by (simp add: batch_inv_def batch_init_def limit_of_def)
  moreover have "main_loop f a None (batch_init a now st) evs = Some (out, s)"
    using assms(2) by (simp add: batch_run_def)
  ultimately have inv: "batch_inv a None s"
    using batch_main_loop [of f a None "batch_init a now st" evs "(out, s)"] by simp
  have "length (racing s) \<le> length (inProgress s)"
    by (rule racing_le_inProgress [OF inv])
  moreover have "start_ops f a s' = s'"
    if "dflt 5 (concurrency a) \<le> int (length (inProgress s'))"
    using that by (subst start_ops.simps) (simp split: list.splits)
  ultimately show ?thesis
    using inv by (simp add: batch_inv_def limit_of_def)
qed

theorem in_flight_bounded_witness:
  "distinct (map op_id (operations (example_batch [''a'', ''b'', ''c'', ''d'', ''e''] (Some 2) None))) \<and>
   in_flight_peak (batch_run example_stringify
      (example_batch [''a'', ''b'', ''c'', ''d'', ''e''] (Some 2) None) 0 initial_state
      [WorkDone 1 10, WorkDone 0 20, WorkDone 3 30, WorkDone 2 40, WorkDone 4 50]) = Some 2 \<and>
   in_flight_now (batch_run example_stringify
      (example_batch [''a'', ''b'', ''c'', ''d'', ''e''] (Some 2) None) 0 initial_state
      [WorkDone 1 10, WorkDone 0 20, WorkDone 3 30]) = Some 2"
proof -
  let ?a = "example_batch [''a'', ''b'', ''c'', ''d'', ''e''] (Some 2) None"
  let ?evs = "[WorkDone 1 10, WorkDone 0 20, WorkDone 3 30, WorkDone 2 40, WorkDone 4 50]"
  have d: "distinct (map op_id (operations ?a))"
    by (simp add: example_batch_def example_op_def)
  have pk: "in_flight_peak (batch_run example_stringify ?a 0 initial_state ?evs) = Some 2"
    by code_simp
  have nw: "in_flight_now (batch_run example_stringify ?a 0 initial_state
              [WorkDone 1 10, WorkDone 0 20, WorkDone 3 30]) = Some 2"
    by code_simp
  obtain out s where run: "batch_run example_stringify ?a 0 initial_state ?evs = Some (out, s)"
    using pk by (auto simp: in_flight_peak_def)
  show ?thesis
    using in_flight_bounded [OF d run] d pk nw by simp
qed

subsection \<open>Arguments out of range\<close>

text \<open>
  Claim C5, as stated, fails: nothing validates \<^verbatim>\<open>ttl_seconds\<close> or \<^verbatim>\<open>concurrency\<close>.
  \<^verbatim>\<open>cache_put\<close> with \<^verbatim>\<open>ttl_seconds = 0\<close> succeeds and writes the (already expired) entry into
  the empty cache; \<^verbatim>\<open>batch_operation\<close> with \<^verbatim>\<open>concurrency = 21\<close> runs and returns its response.
\<close>

theorem range_rejection_counterexample:
  "put_succeeded (fst (cache_put ''k'' JNull (Some 0) None 5 initial_state)) \<and>
   cache (snd (cache_put ''k'' JNull (Some 0) None 5 initial_state))
     = [(''default:k'', \<lparr>entry_value = JNull, expiresAt = 5\<rparr>)] \<and>
   cache initial_state = [] \<and>
   is_returned (outcome_of (batch_operation example_stringify
      (example_batch [''a'', ''b''] (Some 21) None) 0 initial_state
      [WorkDone 1 10, WorkDone 0 20]))"
  by code_simp

text \<open>
  Claim C5, amended. Neither call validates its range. \<^verbatim>\<open>cache_put\<close> with any
  \<^verbatim>\<open>ttl_seconds\<close> stores the value with \<^verbatim>\<open>expiresAt = now + 1000 * ttl_seconds\<close>, unclamped,
  never answers with an input error, and leaves the retry and the rate-limit store alone;
  whenever that expiry is a time value (a valid \<^verbatim>\<open>Date\<close>), it reports success with that
  expiry. \<^verbatim>\<open>batch_operation\<close> never ends with an input error, whatever its \<^verbatim>\<open>concurrency\<close>,
  and leaves the retry and the rate-limit store alone.
\<close>

theorem no_range_validation:
  "map_of (cache (snd (cache_put k v ttl ns now st))) (getCacheKey k (Some (dflt ''default'' ns)))
     = Some \<lparr>entry_value = v, expiresAt = now + dflt 300 ttl * 1000\<rparr> \<and>
   \<not> is_invalid_params (fst (cache_put k v ttl ns now st)) \<and>
   retryMetadata (snd (cache_put k v ttl ns now st)) = retryMetadata st \<and>
   rateLimits (snd (cache_put k v ttl ns now st)) = rateLimits st \<and>
   (valid_date (now + dflt 300 ttl * 1000) \<longrightarrow>
      fst (cache_put k v ttl ns now st)
        = Inr \<lparr>put_success = True, put_ttl_seconds = dflt 300 ttl,
                expires_at = now + dflt 300 ttl * 1000,
                cache_size = length (cache (snd (cache_put k v ttl ns now st)))\<rparr>) \<and>
   (batch_operation f a now st evs = Some (out, st') \<longrightarrow>
      \<not> is_input_error out \<and> retryMetadata st' = retryMetadata st \<and>
      rateLimits st' = rateLimits st)"
proof -
  have "\<not> is_input_error out \<and> retryMetadata st' = retryMetadata st \<and> rateLimits st' = rateLimits st"
    if h: "batch_operation f a now st evs = Some (out, st')"
  proof -
    obtain s where run: "main_loop f a None (batch_init a now st) evs = Some (out, s)"
      and st': "st' = st\<lparr>cache := srv_cache s\<rparr>"
      using h by (auto simp: batch_operation_def batch_run_def)
    show ?thesis using main_loop_no_input_error [OF run] st' by simp
  qed
  then show ?thesis
    by (simp add: cache_put_def Let_def update_conv' is_invalid_params_def invalid_time_def)
qed

theorem no_range_validation_witness:
  "valid_date (5 + dflt 300 (Some 100000) * 1000) \<and>
   fst (cache_put ''k'' JNull (Some 100000) None 5 initial_state)
     = Inr \<lparr>put_success = True, put_ttl_seconds = 100000, expires_at = 100000005,
             cache_size = 1\<rparr> \<and>
   is_returned (outcome_of (batch_operation example_stringify
      (example_batch [''a'', ''b''] (Some 21) None) 0 initial_state
      [WorkDone 1 10, WorkDone 0 20])) \<and>
   in_flight_peak (batch_run example_stringify
      (example_batch [''a'', ''b''] (Some 21) None) 0 initial_state
      [WorkDone 1 10, WorkDone 0 20]) = Some 2"
proof -
  have ok: "valid_date (5 + dflt 300 (Some 100000) * 1000)"
    by (simp add: valid_date_def dflt_def)
  have size: "length (cache (snd (cache_put ''k'' JNull (Some 100000) None 5 initial_state))) = 1"
    by (simp add: cache_put_def initial_state_def Let_def)
  have "is_returned (outcome_of (batch_operation example_stringify
      (example_batch [''a'', ''b''] (Some 21) None) 0 initial_state
      [WorkDone 1 10, WorkDone 0 20]))"
    by code_simp
  moreover have "in_flight_peak (batch_run example_stringify
      (example_batch [''a'', ''b''] (Some 21) None) 0 initial_state
      [WorkDone 1 10, WorkDone 0 20]) = Some 2"
    by code_simp
  moreover obtain out st' where run: "batch_operation example_stringify
      (example_batch [''a'', ''b''] (Some 21) None) 0 initial_state
      [WorkDone 1 10, WorkDone 0 20] = Some (out, st')"
    using calculation(1) by (auto simp: is_returned_def outcome_of_def split: option.splits)
  ultimately show ?thesis
    using no_range_validation [of "''k''" JNull "Some 100000" None 5 initial_state
        example_stringify "example_batch [''a'', ''b''] (Some 21) None"
        "[WorkDone 1 10, WorkDone 0 20]" out st'] run ok size
    by (simp add: dflt_def)
qed

end
